theory Spec2Isabelle
  imports Main
begin

section \<open>Strings and character classes\<close>

text \<open>
  A string of the program is a sequence of code units; it is modelled as a \<open>char list\<close>, one
  \<open>char\<close> for one code unit. The program inspects code units only through the character
  classes of its regular expressions, which are defined here by code-unit ranges. A code
  unit from U+0100 on is in none of the classes of steps 1 to 3 of \<open>toSentence\<close> and is
  blanked by step 3 like the code units from U+0080 to U+00FF, which stand for it here.
\<close>

definition code :: "char \<Rightarrow> nat" where
  "code c = of_char c"

text \<open>\<^verbatim>\<open>\d\<close>\<close>
definition isDigit :: "char \<Rightarrow> bool" where
  "isDigit c \<longleftrightarrow> 48 \<le> code c \<and> code c \<le> 57"

text \<open>\<^verbatim>\<open>[a-z]\<close>\<close>
definition isLower :: "char \<Rightarrow> bool" where
  "isLower c \<longleftrightarrow> 97 \<le> code c \<and> code c \<le> 122"

text \<open>\<^verbatim>\<open>[A-Z]\<close>\<close>
definition isUpper :: "char \<Rightarrow> bool" where
  "isUpper c \<longleftrightarrow> 65 \<le> code c \<and> code c \<le> 90"

text \<open>\<^verbatim>\<open>[a-zA-Z]\<close>\<close>
definition isLetter :: "char \<Rightarrow> bool" where
  "isLetter c \<longleftrightarrow> isLower c \<or> isUpper c"

text \<open>\<^verbatim>\<open>[a-zA-Z0-9 ]\<close>, the class whose complement step 3 of \<open>toSentence\<close> erases\<close>
definition isKept :: "char \<Rightarrow> bool" where
  "isKept c \<longleftrightarrow> isLower c \<or> isUpper c \<or> isDigit c \<or> c = CHR '' ''"

text \<open>\<^verbatim>\<open>\w\<close>, that is \<^verbatim>\<open>[A-Za-z0-9_]\<close>\<close>
definition isWord :: "char \<Rightarrow> bool" where
  "isWord c \<longleftrightarrow> isLower c \<or> isUpper c \<or> isDigit c \<or> c = CHR ''_''"

text \<open>
  \<^verbatim>\<open>\s\<close>: tab, line feed, vertical tab, form feed, carriage return, space and no-break
  space (the white space code units below U+0100).
\<close>
definition isSpace :: "char \<Rightarrow> bool" where
  "isSpace c \<longleftrightarrow> (9 \<le> code c \<and> code c \<le> 13) \<or> code c = 32 \<or> code c = 160"

text \<open>\<^verbatim>\<open>\S\<close>\<close>
definition isNonSpace :: "char \<Rightarrow> bool" where
  "isNonSpace c \<longleftrightarrow> \<not> isSpace c"

text \<open>
  \<^verbatim>\<open>toUpperCase\<close> and \<^verbatim>\<open>toLowerCase\<close> on the letters of ASCII. Every call of the
  program applies them to a string that has passed step 3 of \<open>toSentence\<close>, where only
  letters, digits and spaces are left (lemmas \<open>blankNonWord_kept\<close> and
  \<open>toSentenceDefault_chars\<close>), joined by the separator \<open>_\<close> or the space, so no other
  code unit ever reaches them.
\<close>
definition toUpperChar :: "char \<Rightarrow> char" where
  "toUpperChar c = (if isLower c then char_of (code c - 32) else c)"

definition toLowerChar :: "char \<Rightarrow> char" where
  "toLowerChar c = (if isUpper c then char_of (code c + 32) else c)"

definition toUpperCase :: "string \<Rightarrow> string" where
  "toUpperCase s = map toUpperChar s"

definition toLowerCase :: "string \<Rightarrow> string" where
  "toLowerCase s = map toLowerChar s"

text \<open>\<^verbatim>\<open>s.charAt(0)\<close>: the first code unit as a string, the empty string when there is none\<close>
definition charAt0 :: "string \<Rightarrow> string" where
  "charAt0 s = take 1 s"

text \<open>\<^verbatim>\<open>s.substr(1)\<close>: everything after the first code unit, the empty string when there is none\<close>
definition substr1 :: "string \<Rightarrow> string" where
  "substr1 s = drop 1 s"

section \<open>The replacement passes of \<open>toSentence\<close>\<close>

text \<open>
  Step 1, \<^verbatim>\<open>.replace(/(\d+)/g, ' $1 ')\<close>: scanning from the left, a digit starts a match
  that takes the whole run of digits (\<^verbatim>\<open>+\<close> is greedy); the match is replaced by itself
  between two spaces and the scan goes on behind it.
\<close>
function wrapDigits :: "string \<Rightarrow> string" where
  "wrapDigits [] = []"
| "wrapDigits (c # cs) =
     (if isDigit c
      then CHR '' '' # (c # takeWhile isDigit cs) @ CHR '' '' # wrapDigits (dropWhile isDigit cs)
      else c # wrapDigits cs)"
  by pat_completeness auto
termination
  by (relation "measure length") (auto simp: length_dropWhile_le less_Suc_eq_le)

text \<open>
  Step 2, \<^verbatim>\<open>.replace(/([a-z](?=[A-Z]))/g, '$1 ')\<close>: a lower-case letter that stands
  before an upper-case letter gets a space behind it; the look-ahead consumes nothing.
\<close>
fun splitCamel :: "string \<Rightarrow> string" where
  "splitCamel [] = []"
| "splitCamel [c] = [c]"
| "splitCamel (c # d # cs) =
     (if isLower c \<and> isUpper d then c # CHR '' '' # splitCamel (d # cs)
      else c # splitCamel (d # cs))"

text \<open>Step 3, \<^verbatim>\<open>.replace(/[^a-zA-Z0-9 ]/g, ' ')\<close>\<close>
definition blankNonWord :: "string \<Rightarrow> string" where
  "blankNonWord s = map (\<lambda>c. if isKept c then c else CHR '' '') s"

text \<open>
  The replacement text of \<^verbatim>\<open>String.prototype.replace\<close> is a template: for a pattern
  without capture groups, \<^verbatim>\<open>$$\<close> stands for a dollar sign, \<^verbatim>\<open>$&\<close> for the match,
  \<^verbatim>\<open>$`\<close> for the part of the subject before the match and \<^verbatim>\<open>$'\<close> for the part behind
  it; a dollar sign before anything else stands for itself. \<open>getSubstitution m pre post t\<close>
  expands the template \<open>t\<close> for the match \<open>m\<close> found between \<open>pre\<close> and \<open>post\<close>.
\<close>
fun getSubstitution :: "string \<Rightarrow> string \<Rightarrow> string \<Rightarrow> string \<Rightarrow> string" where
  "getSubstitution m pre post [] = []"
| "getSubstitution m pre post [c] = [c]"
| "getSubstitution m pre post (c # d # t) =
     (if c = CHR ''$'' \<and> d = CHR ''$'' then CHR ''$'' # getSubstitution m pre post t
      else if c = CHR ''$'' \<and> d = CHR ''&'' then m @ getSubstitution m pre post t
      else if c = CHR ''$'' \<and> d = CHR 0x60 then pre @ getSubstitution m pre post t
      else if c = CHR ''$'' \<and> d = CHR 0x27 then post @ getSubstitution m pre post t
      else c # getSubstitution m pre post (d # t))"

text \<open>
  Steps 4 and 7, \<^verbatim>\<open>.replace(/\s+/g, template)\<close>: every maximal run of white space is
  replaced by the expansion of the template. \<open>pre\<close> is the part of the subject already
  scanned.
\<close>
function replaceSpaces :: "string \<Rightarrow> string \<Rightarrow> string \<Rightarrow> string" where
  "replaceSpaces t pre [] = []"
| "replaceSpaces t pre (c # cs) =
     (if isSpace c
      then getSubstitution (c # takeWhile isSpace cs) pre (dropWhile isSpace cs) t
             @ replaceSpaces t (pre @ c # takeWhile isSpace cs) (dropWhile isSpace cs)
      else c # replaceSpaces t (pre @ [c]) cs)"
  by pat_completeness auto
termination
  by (relation "measure (\<lambda>(t, pre, s). length s)")
     (auto simp: length_dropWhile_le less_Suc_eq_le)

text \<open>
  Step 5, \<^verbatim>\<open>.replace(/^ | $/g, '')\<close>: without the multiline flag \<^verbatim>\<open>^\<close> is the start
  and \<^verbatim>\<open>$\<close> the end of the subject, so one space at the start is deleted, and one space
  at the end of what is left.
\<close>
definition dropLeadingSpace :: "string \<Rightarrow> string" where
  "dropLeadingSpace s = (case s of [] \<Rightarrow> [] | c # cs \<Rightarrow> if c = CHR '' '' then cs else s)"

definition dropTrailingSpace :: "string \<Rightarrow> string" where
  "dropTrailingSpace s = (if s \<noteq> [] \<and> last s = CHR '' '' then butlast s else s)"

definition trimEnds :: "string \<Rightarrow> string" where
  "trimEnds s = dropTrailingSpace (dropLeadingSpace s)"

section \<open>\<open>StringUtility\<close>\<close>

text \<open>Steps 1 to 6 of \<open>toSentence\<close>: everything before the separator is put in.\<close>
definition spaced :: "string \<Rightarrow> string" where
  "spaced str =
     toLowerCase (trimEnds (replaceSpaces '' '' [] (blankNonWord (splitCamel (wrapDigits str)))))"

definition toSentence :: "string \<Rightarrow> string \<Rightarrow> string" where
  "toSentence str separator = replaceSpaces separator [] (spaced str)"

text \<open>The default value of the parameter \<open>separator\<close>\<close>
definition toSentenceDefault :: "string \<Rightarrow> string" where
  "toSentenceDefault str = toSentence str '' ''"

text \<open>
  \<^verbatim>\<open>.replace(/ (\w)/g, (_, $1) => $1.toUpperCase())\<close>: a space before a word character
  is deleted and the word character upper-cased; the scan goes on behind the two.
\<close>
fun joinCamel :: "string \<Rightarrow> string" where
  "joinCamel [] = []"
| "joinCamel [c] = [c]"
| "joinCamel (c # d # cs) =
     (if c = CHR '' '' \<and> isWord d then toUpperCase [d] @ joinCamel cs
      else c # joinCamel (d # cs))"

definition toCamelCase :: "string \<Rightarrow> string" where
  "toCamelCase str = joinCamel (toSentenceDefault str)"

text \<open>\<^verbatim>\<open>.replace(/^[a-zA-Z]/, a => a.toUpperCase())\<close>: not global, anchored at the start\<close>
definition upperFirstLetter :: "string \<Rightarrow> string" where
  "upperFirstLetter s =
     (case s of [] \<Rightarrow> [] | c # cs \<Rightarrow> if isLetter c then toUpperCase [c] @ cs else s)"

definition toPascalCase :: "string \<Rightarrow> string" where
  "toPascalCase str = upperFirstLetter (toCamelCase str)"

definition toConstantCase :: "string \<Rightarrow> string" where
  "toConstantCase str = toUpperCase (toSentence str ''_'')"

text \<open>
  \<^verbatim>\<open>.replace(/\w\S*/g, txt => txt.charAt(0).toUpperCase() + txt.substr(1).toLowerCase())\<close>:
  a word character starts a match that runs up to the next white space.
\<close>
function titleWords :: "string \<Rightarrow> string" where
  "titleWords [] = []"
| "titleWords (c # cs) =
     (if isWord c
      then toUpperCase (charAt0 (c # takeWhile isNonSpace cs))
             @ toLowerCase (substr1 (c # takeWhile isNonSpace cs))
             @ titleWords (dropWhile isNonSpace cs)
      else c # titleWords cs)"
  by pat_completeness auto
termination
  by (relation "measure length") (auto simp: length_dropWhile_le less_Suc_eq_le)

definition toTitleCase :: "string \<Rightarrow> string" where
  "toTitleCase str = titleWords (toSentenceDefault str)"

definition toSentenceCase :: "string \<Rightarrow> string" where
  "toSentenceCase str =
     toUpperCase (charAt0 (toSentenceDefault str)) @ toLowerCase (substr1 (toSentenceDefault str))"

text \<open>
  Modelled from the spec: the enumeration \<open>CaseConverterEnum\<close>, whose declaration
  (\<^verbatim>\<open>constants/CaseConverterEnum\<close>) is not among the sources. Its variants are the eleven
  listed in the data model; \<open>NoneCase\<close> is the variant \<open>None\<close>. \<open>Unlisted v\<close> stands for a
  run-time value \<open>v\<close> that is none of them, which the \<^verbatim>\<open>default\<close> branch of the switch
  receives.
\<close>
datatype CaseConverterEnum =
    CamelCase | ConstantCase | DotCase | KebabCase | LowerCase | PascalCase
  | PathCase | SentenceCase | SnakeCase | TitleCase | NoneCase | Unlisted nat

fun toCase :: "string \<Rightarrow> CaseConverterEnum \<Rightarrow> string" where
  "toCase str CamelCase = toCamelCase str"
| "toCase str ConstantCase = toConstantCase str"
| "toCase str DotCase = toSentence str ''.''"
| "toCase str KebabCase = toSentence str ''-''"
| "toCase str LowerCase = toSentence str []"
| "toCase str PascalCase = toPascalCase str"
| "toCase str PathCase = toSentence str ''/''"
| "toCase str SentenceCase = toSentenceCase str"
| "toCase str SnakeCase = toSentence str ''_''"
| "toCase str TitleCase = toTitleCase str"
| "toCase str NoneCase = str"
| "toCase str (Unlisted v) = str"

section \<open>Tokens, and the renderings in the words of the specification\<close>

text \<open>The words of a string: its maximal runs of code units that are not white space\<close>
function wordsOf :: "string \<Rightarrow> string list" where
  "wordsOf [] = []"
| "wordsOf (c # cs) =
     (if isSpace c then wordsOf cs
      else (c # takeWhile isNonSpace cs) # wordsOf (dropWhile isNonSpace cs))"
  by pat_completeness auto
termination
  by (relation "measure length") (auto simp: length_dropWhile_le less_Suc_eq_le)

text \<open>The words joined, with the separator between every two neighbours\<close>
fun joinWith :: "string \<Rightarrow> string list \<Rightarrow> string" where
  "joinWith sep [] = []"
| "joinWith sep [w] = w"
| "joinWith sep (w # v # ws) = w @ sep @ joinWith sep (v # ws)"

text \<open>
  \<^verbatim>\<open>.replace(/\s+/g, t)\<close> for a replacement text \<open>t\<close> without a dollar sign, which stands for itself
  (lemma \<open>replaceSpaces_plain\<close>)
\<close>
function substSpaces :: "string \<Rightarrow> string \<Rightarrow> string" where
  "substSpaces t [] = []"
| "substSpaces t (c # cs) =
     (if isSpace c then t @ substSpaces t (dropWhile isSpace cs) else c # substSpaces t cs)"
  by pat_completeness auto
termination
  by (relation "measure (\<lambda>(t, s). length s)") (auto simp: length_dropWhile_le less_Suc_eq_le)

text \<open>No code unit of the string is white space\<close>
definition spaceless :: "string \<Rightarrow> bool" where
  "spaceless w \<longleftrightarrow> (\<forall>c\<in>set w. \<not> isSpace c)"

text \<open>
  The token sequence of an input: the words left by steps 1 to 3 of \<open>toSentence\<close>, lower-cased
\<close>
definition tokens :: "string \<Rightarrow> string list" where
  "tokens x = map toLowerCase (wordsOf (blankNonWord (splitCamel (wrapDigits x))))"

text \<open>\<^verbatim>\<open>[a-z0-9]\<close>\<close>
definition lowerOrDigit :: "char \<Rightarrow> bool" where
  "lowerOrDigit c \<longleftrightarrow> isLower c \<or> isDigit c"

text \<open>A token is not empty and made of lower-case letters and digits\<close>
definition properToken :: "string \<Rightarrow> bool" where
  "properToken w \<longleftrightarrow> w \<noteq> [] \<and> list_all lowerOrDigit w"

text \<open>The separator put in place of every space of a string\<close>
definition withSeparator :: "string \<Rightarrow> string \<Rightarrow> string" where
  "withSeparator sep s = concat (map (\<lambda>c. if c = CHR '' '' then sep else [c]) s)"

text \<open>
  The first code unit upper-cased and the remainder lower-cased (the rendering of
  \<open>SentenceCase\<close> in the words of the specification)
\<close>
definition capitalizeSentence :: "string \<Rightarrow> string" where
  "capitalizeSentence s = (case s of [] \<Rightarrow> [] | c # cs \<Rightarrow> toUpperChar c # map toLowerChar cs)"

text \<open>The first code unit upper-cased, the remainder as it is\<close>
definition capitalize :: "string \<Rightarrow> string" where
  "capitalize w = (case w of [] \<Rightarrow> [] | c # cs \<Rightarrow> toUpperChar c # cs)"

text \<open>The first token as it is, every later token capitalized, nothing between them\<close>
definition camelTokens :: "string list \<Rightarrow> string" where
  "camelTokens ws = (case ws of [] \<Rightarrow> [] | w # rest \<Rightarrow> w @ concat (map capitalize rest))"

text \<open>
  The rendering of \<open>CamelCase\<close> in the words of the specification, code unit by code unit:
  a space that stands before a word character is removed, and the code unit behind a removed
  space is upper-cased (\<open>up\<close> tells that the space before was removed).
\<close>
fun upperAfterSpace :: "bool \<Rightarrow> string \<Rightarrow> string" where
  "upperAfterSpace up [] = []"
| "upperAfterSpace up (c # cs) =
     (if c = CHR '' '' \<and> cs \<noteq> [] \<and> isWord (hd cs) then upperAfterSpace True cs
      else (if up then toUpperChar c else c) # upperAfterSpace False cs)"

text \<open>\<^verbatim>\<open>[a-zA-Z0-9]\<close>\<close>
definition isAlnum :: "char \<Rightarrow> bool" where
  "isAlnum c \<longleftrightarrow> isLetter c \<or> isDigit c"

text \<open>
  Two neighbours of the input between which a token ends: a digit beside a code unit that is
  not a digit, a lower-case letter before an upper-case letter, or one of the two is neither
  a letter nor a digit.
\<close>
definition isBoundary :: "char \<Rightarrow> char \<Rightarrow> bool" where
  "isBoundary p q \<longleftrightarrow>
     isDigit p \<noteq> isDigit q \<or> (isLower p \<and> isUpper q) \<or> \<not> isAlnum p \<or> \<not> isAlnum q"

text \<open>In a fenced string a digit and a code unit that is not a digit only meet at a space\<close>
fun fenced :: "string \<Rightarrow> bool" where
  "fenced [] = True"
| "fenced [c] = True"
| "fenced (c # d # cs) =
     ((isDigit c = isDigit d \<or> c = CHR '' '' \<or> d = CHR '' '') \<and> fenced (d # cs))"

text \<open>A token of digits only, or of lower-case letters only\<close>
definition pureToken :: "string \<Rightarrow> bool" where
  "pureToken w \<longleftrightarrow> w \<noteq> [] \<and> (list_all isDigit w \<or> list_all isLower w)"

section \<open>Basic facts\<close>

lemma spaced_Nil [simp]: "spaced [] = []"
  by (simp add: spaced_def blankNonWord_def trimEnds_def dropLeadingSpace_def
      dropTrailingSpace_def toLowerCase_def)

lemma toSentence_Nil [simp]: "toSentence [] separator = []"
  by (simp add: toSentence_def)

section \<open>White space, words and tokens\<close>

lemma code_inj: "code c = code d \<longleftrightarrow> c = d"
  by (simp add: code_def)

lemma code_space [simp]: "code (CHR '' '') = 32" by (simp add: code_def)

lemma code_eq_32: "code c = 32 \<longleftrightarrow> c = CHR '' ''"
  using code_inj [of c "CHR '' ''"] by simp

lemma isSpace_space [simp]: "isSpace (CHR '' '')" by (simp add: isSpace_def)

lemma isKept_isSpace: "isKept c \<Longrightarrow> isSpace c \<longleftrightarrow> c = CHR '' ''"
  by (auto simp: isKept_def isSpace_def isLower_def isUpper_def isDigit_def code_eq_32)

lemma code_toLowerChar: "isUpper c \<Longrightarrow> code (toLowerChar c) = code c + 32"
  by (simp add: toLowerChar_def isUpper_def code_def)

lemma code_toUpperChar: "isLower c \<Longrightarrow> code (toUpperChar c) = code c - 32"
  by (auto simp: toUpperChar_def isLower_def code_def)

lemma getSubstitution_plain:
  "CHR ''$'' \<notin> set t \<Longrightarrow> getSubstitution m pre post t = t"
  by (induction m pre post t rule: getSubstitution.induct) auto

lemma replaceSpaces_plain:
  "CHR ''$'' \<notin> set t \<Longrightarrow> replaceSpaces t pre s = substSpaces t s"
  by (induction t pre s rule: replaceSpaces.induct) (simp_all add: getSubstitution_plain)

lemma substSpaces_spaceless_append:
  "spaceless w \<Longrightarrow> substSpaces t (w @ s) = w @ substSpaces t s"
  by (induction w) (simp_all add: spaceless_def)

lemma wordsOf_dropWhile: "wordsOf (dropWhile isSpace s) = wordsOf s"
  by (induction s) simp_all

lemma dropTrailingSpace_append:
  "z \<noteq> [] \<Longrightarrow> dropTrailingSpace (u @ z) = u @ dropTrailingSpace z"
  by (simp add: dropTrailingSpace_def butlast_append)

lemma dropTrailingSpace_spaceless:
  "spaceless w \<Longrightarrow> dropTrailingSpace w = w"
  by (cases w rule: rev_cases) (auto simp: dropTrailingSpace_def spaceless_def)

lemma substSpaces_eq_Nil: "substSpaces '' '' s = [] \<longleftrightarrow> s = []"
  by (cases s) simp_all

lemma wordsOf_ne: "s \<noteq> [] \<Longrightarrow> \<not> isSpace (hd s) \<Longrightarrow> wordsOf s \<noteq> []"
  by (cases s) simp_all

lemma joinWith_Cons: "ws \<noteq> [] \<Longrightarrow> joinWith sep (w # ws) = w @ sep @ joinWith sep ws"
  by (cases ws) simp_all

lemma collapse_words_aux:
  "s = [] \<or> \<not> isSpace (hd s) \<Longrightarrow>
   dropTrailingSpace (substSpaces '' '' s) = joinWith '' '' (wordsOf s)"
proof (induction "length s" arbitrary: s rule: less_induct)
  case less
  show ?case
  proof (cases s)
    case Nil
    then show ?thesis by (simp add: dropTrailingSpace_def)
  next
    case (Cons c cs)
    with less.prems have nsp: "\<not> isSpace c" by simp
    define w where "w = c # takeWhile isNonSpace cs"
    define rest where "rest = dropWhile isNonSpace cs"
    define r2 where "r2 = dropWhile isSpace rest"
    have s_eq: "s = w @ rest" by (simp add: Cons w_def rest_def)
    have w_ok: "spaceless w"
      using nsp by (auto simp: w_def spaceless_def isNonSpace_def dest: set_takeWhileD)
    have wds: "wordsOf s = w # wordsOf r2"
      using nsp by (simp add: Cons w_def rest_def r2_def wordsOf_dropWhile)
    have sub: "substSpaces '' '' s = w @ substSpaces '' '' rest"
      unfolding s_eq using w_ok by (rule substSpaces_spaceless_append)
    show ?thesis
    proof (cases "rest = []")
      case True
      then show ?thesis using w_ok by (simp add: sub wds r2_def dropTrailingSpace_spaceless)
    next
      case False
      then obtain sp rest' where rest: "rest = sp # rest'" by (cases rest) auto
      have "\<not> isNonSpace (hd rest)"
        using False hd_dropWhile [of isNonSpace cs] by (simp add: rest_def)
      then have sp: "isSpace sp" by (simp add: rest isNonSpace_def)
      have sub2: "substSpaces '' '' rest = CHR '' '' # substSpaces '' '' r2"
        using sp by (simp add: rest r2_def)
      have r2_hd: "r2 = [] \<or> \<not> isSpace (hd r2)"
        using hd_dropWhile [of isSpace rest] by (auto simp: r2_def)
      have "length r2 \<le> length rest" by (simp add: r2_def length_dropWhile_le)
      then have len: "length r2 < length s" by (simp add: s_eq w_def)
      have IH: "dropTrailingSpace (substSpaces '' '' r2) = joinWith '' '' (wordsOf r2)"
        using less.hyps [OF len r2_hd] .
      show ?thesis
      proof (cases "r2 = []")
        case True
        have "dropTrailingSpace (w @ '' '') = w"
          by (simp add: dropTrailingSpace_def)
        then show ?thesis by (simp add: sub sub2 wds True)
      next
        case False
        then have z: "substSpaces '' '' r2 \<noteq> []" by (simp add: substSpaces_eq_Nil)
        from False r2_hd have wn: "wordsOf r2 \<noteq> []" by (simp add: wordsOf_ne)
        have "dropTrailingSpace (substSpaces '' '' s)
                = (w @ '' '') @ dropTrailingSpace (substSpaces '' '' r2)"
          using dropTrailingSpace_append [OF z, of "w @ '' ''"] by (simp add: sub sub2)
        then show ?thesis by (simp add: IH wds joinWith_Cons [OF wn])
      qed
    qed
  qed
qed

lemma trim_collapse_words:
  "trimEnds (substSpaces '' '' s) = joinWith '' '' (wordsOf s)"
proof (cases s)
  case Nil
  then show ?thesis by (simp add: trimEnds_def dropLeadingSpace_def dropTrailingSpace_def)
next
  case (Cons c cs)
  show ?thesis
  proof (cases "isSpace c")
    case True
    define r where "r = dropWhile isSpace cs"
    have r_hd: "r = [] \<or> \<not> isSpace (hd r)"
      using hd_dropWhile [of isSpace cs] by (auto simp: r_def)
    have "trimEnds (substSpaces '' '' s) = dropTrailingSpace (substSpaces '' '' r)"
      using True by (simp add: Cons trimEnds_def dropLeadingSpace_def r_def)
    also have "\<dots> = joinWith '' '' (wordsOf r)" using r_hd by (rule collapse_words_aux)
    also have "wordsOf r = wordsOf s" using True by (simp add: Cons r_def wordsOf_dropWhile)
    finally show ?thesis .
  next
    case False
    then have "c \<noteq> CHR '' ''" by auto
    then have "dropLeadingSpace (substSpaces '' '' s) = substSpaces '' '' s"
      using False by (simp add: Cons dropLeadingSpace_def)
    then show ?thesis using False collapse_words_aux [of s] by (simp add: Cons trimEnds_def)
  qed
qed

lemma wordsOf_proper: "w \<in> set (wordsOf s) \<Longrightarrow> w \<noteq> [] \<and> spaceless w \<and> set w \<subseteq> set s"
proof (induction s rule: wordsOf.induct)
  case 1
  then show ?case by simp
next
  case (2 c cs)
  show ?case
  proof (cases "isSpace c")
    case True
    with 2 show ?thesis by auto
  next
    case False
    from "2.prems" False
    consider "w = c # takeWhile isNonSpace cs" | "w \<in> set (wordsOf (dropWhile isNonSpace cs))"
      by auto
    then show ?thesis
    proof cases
      case 1
      have "\<forall>x\<in>set (takeWhile isNonSpace cs). \<not> isSpace x \<and> x \<in> set cs"
        using set_takeWhileD [of _ isNonSpace cs] by (auto simp: isNonSpace_def)
      then show ?thesis using False 1 by (auto simp: spaceless_def)
    next
      case 2
      then have "w \<noteq> [] \<and> spaceless w \<and> set w \<subseteq> set (dropWhile isNonSpace cs)"
        using "2.IH" False by simp
      moreover have "set (dropWhile isNonSpace cs) \<subseteq> set cs"
        by (auto dest: set_dropWhileD)
      ultimately show ?thesis by auto
    qed
  qed
qed

lemma substSpaces_joinWith:
  "\<forall>w\<in>set ws. w \<noteq> [] \<and> spaceless w \<Longrightarrow> substSpaces t (joinWith '' '' ws) = joinWith t ws"
proof (induction t ws rule: joinWith.induct)
  case (1)
  then show ?case by simp
next
  case (2 t w)
  then show ?case using substSpaces_spaceless_append [of w t "[]"] by simp
next
  case (3 t w v ws)
  then have v: "v \<noteq> []" "\<not> isSpace (hd v)" by (auto simp: spaceless_def)
  then have hdj: "joinWith '' '' (v # ws) \<noteq> [] \<and> \<not> isSpace (hd (joinWith '' '' (v # ws)))"
    by (cases ws) auto
  then have "dropWhile isSpace (joinWith '' '' (v # ws)) = joinWith '' '' (v # ws)"
    by (cases "joinWith '' '' (v # ws)") auto
  then have "substSpaces t ('' '' @ joinWith '' '' (v # ws)) = t @ substSpaces t (joinWith '' '' (v # ws))"
    by simp
  with 3 show ?case by (simp add: substSpaces_spaceless_append)
qed

lemma toLowerCase_joinWith_gen:
  "toLowerCase (joinWith sep ws) = joinWith (toLowerCase sep) (map toLowerCase ws)"
  by (induction sep ws rule: joinWith.induct) (simp_all add: toLowerCase_def)

lemma toLowerCase_joinWith:
  "toLowerCase (joinWith '' '' ws) = joinWith '' '' (map toLowerCase ws)"
  by (simp add: toLowerCase_joinWith_gen) (simp add: toLowerCase_def toLowerChar_def isUpper_def)

lemma spaced_tokens: "spaced x = joinWith '' '' (tokens x)"
  by (simp add: spaced_def tokens_def replaceSpaces_plain trim_collapse_words toLowerCase_joinWith)

lemma blankNonWord_kept: "c \<in> set (blankNonWord s) \<Longrightarrow> isKept c"
  by (auto simp: blankNonWord_def isKept_def)

lemma toLowerChar_kept:
  "isKept c \<Longrightarrow> \<not> isSpace c \<Longrightarrow> lowerOrDigit (toLowerChar c)"
  by (auto simp: lowerOrDigit_def isKept_def toLowerChar_def isLower_def isUpper_def isDigit_def
      code_def)

lemma lowerOrDigit_not_space: "lowerOrDigit c \<Longrightarrow> \<not> isSpace c"
  by (auto simp: lowerOrDigit_def isLower_def isDigit_def isSpace_def)

lemma lowerOrDigit_not_upper: "lowerOrDigit c \<Longrightarrow> \<not> isUpper c"
  by (auto simp: lowerOrDigit_def isLower_def isDigit_def isUpper_def)

lemma lowerOrDigit_toLowerChar: "lowerOrDigit c \<Longrightarrow> toLowerChar c = c"
  by (simp add: toLowerChar_def lowerOrDigit_not_upper)

lemma lowerOrDigit_isWord: "lowerOrDigit c \<Longrightarrow> isWord c"
  by (auto simp: lowerOrDigit_def isWord_def)

lemma tokens_proper: "w \<in> set (tokens x) \<Longrightarrow> properToken w"
proof -
  assume "w \<in> set (tokens x)"
  then obtain v where v: "v \<in> set (wordsOf (blankNonWord (splitCamel (wrapDigits x))))"
    and w: "w = toLowerCase v" by (auto simp: tokens_def)
  from wordsOf_proper [OF v] have "v \<noteq> []" "spaceless v"
    "\<forall>c\<in>set v. isKept c" by (auto dest: blankNonWord_kept)
  then show ?thesis
    by (auto simp: properToken_def w toLowerCase_def list_all_iff spaceless_def
        intro: toLowerChar_kept)
qed

lemma properToken_spaceless: "properToken w \<Longrightarrow> w \<noteq> [] \<and> spaceless w"
  by (auto simp: properToken_def spaceless_def list_all_iff dest: lowerOrDigit_not_space)

lemma toSentence_tokens:
  "CHR ''$'' \<notin> set t \<Longrightarrow> toSentence x t = joinWith t (tokens x)"
proof -
  assume t: "CHR ''$'' \<notin> set t"
  have "\<forall>w\<in>set (tokens x). w \<noteq> [] \<and> spaceless w"
    using tokens_proper properToken_spaceless by blast
  then show ?thesis
    by (simp add: toSentence_def replaceSpaces_plain [OF t] spaced_tokens substSpaces_joinWith)
qed

lemma toSentenceDefault_tokens: "toSentenceDefault x = joinWith '' '' (tokens x)"
  by (simp add: toSentenceDefault_def toSentence_tokens)

lemma set_joinWith: "set (joinWith sep ws) \<subseteq> set sep \<union> \<Union> (set ` set ws)"
  by (induction sep ws rule: joinWith.induct) auto

lemma toSentenceDefault_chars:
  "c \<in> set (toSentenceDefault x) \<Longrightarrow> lowerOrDigit c \<or> c = CHR '' ''"
proof -
  assume "c \<in> set (toSentenceDefault x)"
  then have "c \<in> set '' '' \<union> \<Union> (set ` set (tokens x))"
    using set_joinWith [of "'' ''" "tokens x"] by (auto simp: toSentenceDefault_tokens)
  then show ?thesis using tokens_proper by (auto simp: properToken_def list_all_iff)
qed

lemma withSeparator_append [simp]:
  "withSeparator sep (a @ b) = withSeparator sep a @ withSeparator sep b"
  by (simp add: withSeparator_def)

lemma withSeparator_spaceless: "spaceless w \<Longrightarrow> withSeparator sep w = w"
  by (induction w) (auto simp: withSeparator_def spaceless_def)

lemma withSeparator_joinWith:
  "\<forall>w\<in>set ws. spaceless w \<Longrightarrow> withSeparator sep (joinWith '' '' ws) = joinWith sep ws"
proof (induction sep ws rule: joinWith.induct)
  case (3 sep w v ws)
  then show ?case by (simp add: withSeparator_spaceless) (simp add: withSeparator_def)
qed (simp_all add: withSeparator_spaceless, simp add: withSeparator_def)

lemma separator_law:
  "CHR ''$'' \<notin> set sep \<Longrightarrow> toSentence x sep = withSeparator sep (toSentence x '' '')"
proof -
  assume t: "CHR ''$'' \<notin> set sep"
  have "\<forall>w\<in>set (tokens x). spaceless w"
    using tokens_proper properToken_spaceless by blast
  then show ?thesis by (simp add: toSentence_tokens t withSeparator_joinWith)
qed

section \<open>Edges, sentences and camel humps\<close>

lemma wrapDigits_no_digit: "\<forall>c\<in>set x. \<not> isDigit c \<Longrightarrow> wrapDigits x = x"
  by (induction x) simp_all

lemma splitCamel_no_upper: "\<forall>c\<in>set x. \<not> isUpper c \<Longrightarrow> splitCamel x = x"
  by (induction x rule: splitCamel.induct) simp_all

lemma splitCamel_no_lower: "\<forall>c\<in>set x. \<not> isLower c \<Longrightarrow> splitCamel x = x"
  by (induction x rule: splitCamel.induct) simp_all

lemma wordsOf_all_space: "\<forall>c\<in>set s. isSpace c \<Longrightarrow> wordsOf s = []"
  by (induction s) simp_all

lemma blankNonWord_no_alnum:
  "\<forall>c\<in>set x. \<not> isLetter c \<and> \<not> isDigit c \<Longrightarrow> \<forall>c\<in>set (blankNonWord x). isSpace c"
  by (auto simp: blankNonWord_def isKept_def isLetter_def)

lemma tokens_no_alnum:
  assumes "\<forall>c\<in>set x. \<not> isLetter c \<and> \<not> isDigit c"
  shows "tokens x = []"
proof -
  have "wrapDigits x = x" using assms by (simp add: wrapDigits_no_digit)
  moreover have "splitCamel x = x" using assms by (simp add: splitCamel_no_upper isLetter_def)
  ultimately show ?thesis
    using blankNonWord_no_alnum [OF assms] by (simp add: tokens_def wordsOf_all_space)
qed

lemma toSentence_no_alnum:
  assumes "\<forall>c\<in>set x. \<not> isLetter c \<and> \<not> isDigit c"
  shows "toSentence x s = []"
  using tokens_no_alnum [OF assms] by (simp add: toSentence_def spaced_tokens)

lemma hd_joinWith: "ws \<noteq> [] \<Longrightarrow> hd ws \<noteq> [] \<Longrightarrow> hd (joinWith sep ws) = hd (hd ws)"
  by (induction sep ws rule: joinWith.induct) simp_all

lemma joinWith_eq_Nil: "\<forall>w\<in>set ws. w \<noteq> [] \<Longrightarrow> joinWith sep ws = [] \<longleftrightarrow> ws = []"
  by (induction sep ws rule: joinWith.induct) simp_all

lemma last_joinWith:
  "ws \<noteq> [] \<Longrightarrow> \<forall>w\<in>set ws. w \<noteq> [] \<Longrightarrow> last (joinWith sep ws) = last (last ws)"
  by (induction sep ws rule: joinWith.induct) (simp_all add: joinWith_eq_Nil)

lemma toSentence_no_edge_space:
  assumes "toSentence x '' '' \<noteq> []"
  shows "hd (toSentence x '' '') \<noteq> CHR '' '' \<and> last (toSentence x '' '') \<noteq> CHR '' ''"
proof -
  have ts: "toSentence x '' '' = joinWith '' '' (tokens x)" by (simp add: toSentence_tokens)
  with assms have ne: "tokens x \<noteq> []" by auto
  have pr: "\<forall>w\<in>set (tokens x). w \<noteq> [] \<and> spaceless w"
    using tokens_proper properToken_spaceless by blast
  then have "hd (tokens x) \<noteq> [] \<and> spaceless (hd (tokens x))"
    and "last (tokens x) \<noteq> [] \<and> spaceless (last (tokens x))"
    using ne by simp_all
  then have "\<not> isSpace (hd (hd (tokens x)))" "\<not> isSpace (last (last (tokens x)))"
    by (simp_all add: spaceless_def)
  moreover have "hd (toSentence x '' '') = hd (hd (tokens x))"
    using ne pr by (simp add: ts hd_joinWith)
  moreover have "last (toSentence x '' '') = last (last (tokens x))"
    using ne pr by (simp add: ts last_joinWith)
  ultimately show ?thesis by auto
qed

lemma toSentenceCase_spec:
  "toCase x SentenceCase = capitalizeSentence (toSentence x '' '')"
  by (simp add: toSentenceCase_def toSentenceDefault_def capitalizeSentence_def toUpperCase_def
      toLowerCase_def charAt0_def substr1_def split: list.split)

lemma toSentenceCase_rest:
  "toCase x SentenceCase = capitalize (toSentence x '' '')"
proof -
  have sp: "toLowerChar (CHR '' '') = CHR '' ''" by (simp add: toLowerChar_def isUpper_def)
  have "\<forall>c\<in>set (toSentence x '' ''). toLowerChar c = c"
    using toSentenceDefault_chars [of _ x] sp lowerOrDigit_toLowerChar
    by (auto simp: toSentenceDefault_def)
  then have "map toLowerChar (tl (toSentence x '' '')) = tl (toSentence x '' '')"
    by (cases "toSentence x '' ''") (simp_all add: map_idI)
  then show ?thesis
    unfolding toSentenceCase_spec
    by (cases "toSentence x '' ''") (simp_all add: capitalizeSentence_def capitalize_def)
qed

lemma joinCamel_upperAfterSpace: "joinCamel s = upperAfterSpace False s"
  by (induction s rule: joinCamel.induct) (auto simp: toUpperCase_def isWord_def isLower_def isUpper_def isDigit_def)

lemma joinCamel_Cons: "d \<noteq> CHR '' '' \<Longrightarrow> joinCamel (d # r) = d # joinCamel r"
  by (cases r) simp_all

lemma joinCamel_prefix:
  "CHR '' '' \<notin> set w \<Longrightarrow> joinCamel (w @ r) = w @ joinCamel r"
  by (induction w) (auto simp: joinCamel_Cons)

lemma joinCamel_joinWith:
  "\<forall>w\<in>set (v # vs). properToken w \<Longrightarrow>
   joinCamel (joinWith '' '' (v # vs)) = v @ concat (map capitalize vs)"
proof (induction vs arbitrary: v)
  case Nil
  then have "CHR '' '' \<notin> set v"
    using properToken_spaceless [of v] by (auto simp: spaceless_def)
  then show ?case using joinCamel_prefix [of v "[]"] by simp
next
  case (Cons u us)
  then have v: "CHR '' '' \<notin> set v"
    using properToken_spaceless [of v] by (auto simp: spaceless_def)
  from Cons.prems have pu: "properToken u" by simp
  then obtain d u' where u: "u = d # u'" by (cases u) (auto simp: properToken_def)
  with pu have d: "isWord d" "d \<noteq> CHR '' ''"
    using lowerOrDigit_isWord [of d] lowerOrDigit_not_space [of d]
    by (auto simp: properToken_def)
  obtain J' where J: "joinWith '' '' (u # us) = d # J'"
    by (cases us) (auto simp: u)
  have IH: "joinCamel (joinWith '' '' (u # us)) = u @ concat (map capitalize us)"
    using Cons.IH [of u] Cons.prems by simp
  then have "joinCamel (d # J') = u @ concat (map capitalize us)"
    unfolding J .
  then have J'': "joinCamel J' = u' @ concat (map capitalize us)"
    using d by (simp add: joinCamel_Cons u)
  have "joinCamel (joinWith '' '' (v # u # us)) = v @ joinCamel (CHR '' '' # d # J')"
    using joinCamel_prefix [OF v] by (simp add: J)
  also have "\<dots> = v @ toUpperChar d # joinCamel J'"
    using d by (simp add: toUpperCase_def)
  also have "toUpperChar d # joinCamel J' = capitalize u @ concat (map capitalize us)"
    by (simp add: J'' u capitalize_def)
  finally show ?case by simp
qed

lemma wordsOf_spaceless_Cons:
  "w \<noteq> [] \<Longrightarrow> spaceless w \<Longrightarrow> r = [] \<or> isSpace (hd r) \<Longrightarrow> wordsOf (w @ r) = w # wordsOf r"
proof -
  assume w: "w \<noteq> []" "spaceless w" and r: "r = [] \<or> isSpace (hd r)"
  then obtain c cs where wc: "w = c # cs" by (cases w) auto
  have cs: "\<forall>x\<in>set cs. isNonSpace x" "\<not> isSpace c"
    using w by (auto simp: wc spaceless_def isNonSpace_def)
  have "takeWhile isNonSpace (cs @ r) = cs" "dropWhile isNonSpace (cs @ r) = r"
    using cs r by (cases r; simp add: isNonSpace_def)+
  then show ?thesis using cs by (simp add: wc)
qed

lemma wordsOf_joinWith:
  "\<forall>w\<in>set ws. w \<noteq> [] \<and> spaceless w \<Longrightarrow> wordsOf (joinWith '' '' ws) = ws"
proof (induction ws)
  case Nil
  then show ?case by simp
next
  case (Cons w ws)
  show ?case
  proof (cases ws)
    case Nil
    then show ?thesis using Cons.prems wordsOf_spaceless_Cons [of w "[]"] by simp
  next
    case (Cons v vs)
    have "wordsOf (w @ CHR '' '' # joinWith '' '' ws) = w # wordsOf (CHR '' '' # joinWith '' '' ws)"
      using Cons.prems wordsOf_spaceless_Cons [of w "CHR '' '' # joinWith '' '' ws"] by simp
    then show ?thesis using Cons.IH Cons.prems by (simp add: Cons)
  qed
qed

lemma wordsOf_toSentence: "wordsOf (toSentence x '' '') = tokens x"
  using tokens_proper properToken_spaceless
  by (simp add: toSentence_tokens wordsOf_joinWith)

lemma toCamelCase_tokens: "toCase x CamelCase = camelTokens (wordsOf (toSentence x '' ''))"
proof (cases "tokens x")
  case Nil
  then show ?thesis
    by (simp add: wordsOf_toSentence camelTokens_def toCamelCase_def toSentenceDefault_tokens)
next
  case (Cons v vs)
  then have "\<forall>w\<in>set (v # vs). properToken w" using tokens_proper [of _ x] by simp
  then show ?thesis
    using joinCamel_joinWith [of v vs]
    by (simp add: wordsOf_toSentence camelTokens_def toCamelCase_def toSentenceDefault_tokens Cons)
qed

section \<open>The passes on a concatenation\<close>

lemma takeWhile_append_stop:
  "r = [] \<or> \<not> P (hd r) \<Longrightarrow> takeWhile P (cs @ r) = takeWhile P cs"
  by (induction cs) (auto simp: takeWhile_eq_Nil_iff)

lemma dropWhile_append_stop:
  "r = [] \<or> \<not> P (hd r) \<Longrightarrow> dropWhile P (cs @ r) = dropWhile P cs @ r"
  by (induction cs) (auto simp: dropWhile_eq_self_iff)

lemma wrapDigits_append_right:
  "r = [] \<or> \<not> isDigit (hd r) \<Longrightarrow> wrapDigits (a @ r) = wrapDigits a @ wrapDigits r"
  by (induction a rule: wrapDigits.induct)
     (simp_all add: takeWhile_append_stop dropWhile_append_stop)

lemma last_dropWhile: "dropWhile P xs \<noteq> [] \<Longrightarrow> last (dropWhile P xs) = last xs"
  by (induction xs) (auto split: if_splits)

lemma wrapDigits_append_left:
  "a = [] \<or> \<not> isDigit (last a) \<Longrightarrow> wrapDigits (a @ r) = wrapDigits a @ wrapDigits r"
proof (induction a rule: wrapDigits.induct)
  case 1
  then show ?case by simp
next
  case (2 c cs)
  show ?case
  proof (cases "isDigit c")
    case False
    with 2 show ?thesis by (cases cs) auto
  next
    case True
    with "2.prems" have cs: "cs \<noteq> []" "\<not> isDigit (last cs)" by (auto split: if_splits)
    then have ex: "last cs \<in> set cs" by simp
    have tw: "takeWhile isDigit (cs @ r) = takeWhile isDigit cs"
      using ex cs(2) by (rule takeWhile_append1)
    have dw: "dropWhile isDigit (cs @ r) = dropWhile isDigit cs @ r"
      using ex cs(2) by (rule dropWhile_append1)
    have dn: "dropWhile isDigit cs \<noteq> []"
      using ex cs by (auto simp: dropWhile_eq_Nil_conv)
    then have "\<not> isDigit (last (dropWhile isDigit cs))" using cs by (simp add: last_dropWhile)
    then have "wrapDigits (dropWhile isDigit cs @ r)
                 = wrapDigits (dropWhile isDigit cs) @ wrapDigits r"
      using "2.IH"(1) True by simp
    then show ?thesis using True by (simp add: tw dw)
  qed
qed

lemma wrapDigits_append:
  "a = [] \<or> r = [] \<or> \<not> isDigit (last a) \<or> \<not> isDigit (hd r) \<Longrightarrow>
   wrapDigits (a @ r) = wrapDigits a @ wrapDigits r"
  using wrapDigits_append_left [of a r] wrapDigits_append_right [of r a] by auto

lemma wrapDigits_digits:
  "d \<noteq> [] \<Longrightarrow> \<forall>c\<in>set d. isDigit c \<Longrightarrow> wrapDigits d = CHR '' '' # d @ '' ''"
proof -
  assume d: "d \<noteq> []" "\<forall>c\<in>set d. isDigit c"
  then obtain c cs where dc: "d = c # cs" by (cases d) auto
  have tw: "takeWhile isDigit cs = cs" and dw: "dropWhile isDigit cs = []"
    using d by (simp_all add: dc)
  show ?thesis using d by (simp add: dc tw dw)
qed

lemma wrapDigits_eq_Nil [simp]: "wrapDigits x = [] \<longleftrightarrow> x = []"
  by (cases x) simp_all

lemma hd_wrapDigits:
  "x \<noteq> [] \<Longrightarrow> hd (wrapDigits x) = (if isDigit (hd x) then CHR '' '' else hd x)"
  by (cases x) simp_all

lemma last_wrapDigits:
  "x \<noteq> [] \<Longrightarrow> last (wrapDigits x) = (if isDigit (last x) then CHR '' '' else last x)"
proof (induction x rule: wrapDigits.induct)
  case 1
  then show ?case by simp
next
  case (2 c cs)
  show ?case
  proof (cases "isDigit c")
    case False
    with 2 show ?thesis by (cases cs) auto
  next
    case True
    show ?thesis
    proof (cases "dropWhile isDigit cs = []")
      case True
      then have "\<forall>x\<in>set cs. isDigit x" by (simp add: dropWhile_eq_Nil_conv)
      then have "isDigit (last (c # cs))" using \<open>isDigit c\<close> by (cases cs rule: rev_cases) auto
      then show ?thesis using True \<open>isDigit c\<close> by simp
    next
      case False
      then have "cs \<noteq> []" by auto
      then have l: "last (c # cs) = last (dropWhile isDigit cs)"
        using False by (simp add: last_dropWhile)
      have ne: "\<not> Ball (set cs) isDigit" using False by (simp add: dropWhile_eq_Nil_conv)
      have "last (wrapDigits (c # cs)) = last (wrapDigits (dropWhile isDigit cs))"
        using True by (simp add: ne)
      also have "\<dots> = (if isDigit (last (dropWhile isDigit cs)) then CHR '' ''
                        else last (dropWhile isDigit cs))"
        using "2.IH"(1) [OF True False] .
      finally show ?thesis unfolding l .
    qed
  qed
qed

lemma splitCamel_eq_Nil [simp]: "splitCamel x = [] \<longleftrightarrow> x = []"
  by (induction x rule: splitCamel.induct) simp_all

lemma hd_splitCamel [simp]: "hd (splitCamel x) = hd x"
  by (induction x rule: splitCamel.induct) simp_all

lemma last_splitCamel [simp]: "last (splitCamel x) = last x"
  by (induction x rule: splitCamel.induct) simp_all

lemma splitCamel_append:
  "splitCamel (u @ v) =
     splitCamel u @ (if u \<noteq> [] \<and> v \<noteq> [] \<and> isLower (last u) \<and> isUpper (hd v) then '' '' else [])
       @ splitCamel v"
proof (induction u rule: splitCamel.induct)
  case 1
  then show ?case by simp
next
  case (2 c)
  then show ?case by (cases v) simp_all
next
  case (3 c d cs)
  then show ?case by simp
qed

lemma wordsOf_append_space:
  "isSpace c \<Longrightarrow> wordsOf (u @ c # v) = wordsOf u @ wordsOf v"
proof (induction u rule: wordsOf.induct)
  case 1
  then show ?case by simp
next
  case (2 x xs)
  show ?case
  proof (cases "isSpace x")
    case True
    with 2 show ?thesis by simp
  next
    case False
    show ?thesis
    proof (cases "dropWhile isNonSpace xs = []")
      case True
      then have all: "\<forall>y\<in>set xs. isNonSpace y" by (simp add: dropWhile_eq_Nil_conv)
      have nc: "\<not> isNonSpace c" using \<open>isSpace c\<close> by (simp add: isNonSpace_def)
      have t1: "takeWhile isNonSpace (xs @ c # v) = xs"
        using all nc by (simp add: takeWhile_append2)
      have d1: "dropWhile isNonSpace (xs @ c # v) = c # v"
        using all nc by (simp add: dropWhile_append2)
      have t2: "takeWhile isNonSpace xs = xs" using all by simp
      have "wordsOf ((x # xs) @ c # v) = (x # xs) # wordsOf (c # v)"
        using False by (simp add: t1 d1)
      moreover have "wordsOf (x # xs) = [x # xs]"
        using False by (simp add: t2 True)
      ultimately show ?thesis using \<open>isSpace c\<close> by simp
    next
      case nonempty: False
      then obtain y where y: "y \<in> set xs" "\<not> isNonSpace y"
        by (auto simp: dropWhile_eq_Nil_conv)
      then have "takeWhile isNonSpace (xs @ c # v) = takeWhile isNonSpace xs"
        "dropWhile isNonSpace (xs @ c # v) = dropWhile isNonSpace xs @ c # v"
        by (simp_all add: takeWhile_append1 dropWhile_append1)
      then show ?thesis using False "2.IH"(2) "2.prems" by simp
    qed
  qed
qed

lemma wordsOf_snoc_space: "isSpace c \<Longrightarrow> wordsOf (u @ [c]) = wordsOf u"
  using wordsOf_append_space [of c u "[]"] by simp

lemma wordsOf_append:
  assumes "u = [] \<or> v = [] \<or> isSpace (last u) \<or> isSpace (hd v)"
  shows "wordsOf (u @ v) = wordsOf u @ wordsOf v"
proof -
  consider "u = []" | "v = []" | "u \<noteq> []" "isSpace (last u)" | "v \<noteq> []" "isSpace (hd v)"
    using assms by blast
  then show ?thesis
  proof cases
    case 3
    then obtain u' where u: "u = u' @ [last u]" by (metis append_butlast_last_id)
    have "wordsOf (u' @ last u # v) = wordsOf u' @ wordsOf v"
      using 3 by (simp add: wordsOf_append_space)
    moreover have "wordsOf u = wordsOf u'"
      using 3 wordsOf_snoc_space [of "last u" u'] u by simp
    ultimately show ?thesis using u by (metis append.assoc append_Cons append_Nil)
  next
    case 4
    then obtain v' where v: "v = hd v # v'" by (cases v) auto
    have "wordsOf (u @ hd v # v') = wordsOf u @ wordsOf v'"
      using 4 by (simp add: wordsOf_append_space)
    moreover have "wordsOf v = wordsOf v'" using 4 v by (metis wordsOf.simps(2))
    ultimately show ?thesis using v by metis
  qed simp_all
qed

section \<open>Tokens of a concatenation\<close>

lemma tokens_Nil [simp]: "tokens [] = []"
  by (simp add: tokens_def blankNonWord_def)

lemma blankNonWord_append [simp]:
  "blankNonWord (u @ v) = blankNonWord u @ blankNonWord v"
  by (simp add: blankNonWord_def)

lemma blankNonWord_eq_Nil [simp]: "blankNonWord u = [] \<longleftrightarrow> u = []"
  by (simp add: blankNonWord_def)

lemma last_blankNonWord:
  "u \<noteq> [] \<Longrightarrow> last (blankNonWord u) = (if isKept (last u) then last u else CHR '' '')"
  by (simp add: blankNonWord_def last_map)

lemma hd_blankNonWord:
  "u \<noteq> [] \<Longrightarrow> hd (blankNonWord u) = (if isKept (hd u) then hd u else CHR '' '')"
  by (simp add: blankNonWord_def hd_map)

lemma not_alnum_blank:
  "\<not> isAlnum p \<Longrightarrow> isSpace (if isKept p then p else CHR '' '')"
  by (auto simp: isAlnum_def isKept_def isLetter_def)

lemma tokens_append:
  assumes "a = [] \<or> b = [] \<or> isBoundary (last a) (hd b)"
  shows "tokens (a @ b) = tokens a @ tokens b"
proof (cases "a = [] \<or> b = []")
  case True
  then show ?thesis by auto
next
  case False
  then have ne: "a \<noteq> []" "b \<noteq> []" by auto
  with assms have bd: "isBoundary (last a) (hd b)" by auto
  define p q where "p = last a" and "q = hd b"
  define A B where "A = wrapDigits a" and "B = wrapDigits b"
  define U V where "U = blankNonWord (splitCamel A)" and "V = blankNonWord (splitCamel B)"
  have nd: "\<not> isDigit p \<or> \<not> isDigit q"
    using bd by (auto simp: isBoundary_def p_def q_def isAlnum_def isLower_def isUpper_def isDigit_def)
  have w: "wrapDigits (a @ b) = A @ B"
    using nd wrapDigits_append [of a b] by (auto simp: p_def q_def A_def B_def)
  have AB: "A \<noteq> []" "B \<noteq> []" using ne by (simp_all add: A_def B_def)
  have lA: "last A = (if isDigit p then CHR '' '' else p)"
    using ne by (simp add: A_def p_def last_wrapDigits)
  have hB: "hd B = (if isDigit q then CHR '' '' else q)"
    using ne by (simp add: B_def q_def hd_wrapDigits)
  have UV: "U \<noteq> []" "V \<noteq> []" using AB by (simp_all add: U_def V_def)
  have lU: "last U = (if isKept (last A) then last A else CHR '' '')"
    using AB by (simp add: U_def last_blankNonWord)
  have hV: "hd V = (if isKept (hd B) then hd B else CHR '' '')"
    using AB by (simp add: V_def hd_blankNonWord)
  have words: "wordsOf (blankNonWord (splitCamel (A @ B))) = wordsOf U @ wordsOf V"
  proof (cases "isLower (last A) \<and> isUpper (hd B)")
    case True
    then have "blankNonWord (splitCamel (A @ B)) = U @ CHR '' '' # V"
      using AB by (simp add: splitCamel_append U_def V_def) (simp add: blankNonWord_def isKept_def)
    then show ?thesis by (simp add: wordsOf_append_space)
  next
    case False
    then have eq: "blankNonWord (splitCamel (A @ B)) = U @ V"
      by (auto simp: splitCamel_append U_def V_def)
    have "isSpace (last U) \<or> isSpace (hd V)"
    proof (cases "isDigit p \<or> isDigit q")
      case True
      then show ?thesis by (auto simp: lU hV lA hB isKept_def)
    next
      case nodigit: False
      then have "last A = p" "hd B = q" by (simp_all add: lA hB)
      with False have "\<not> (isLower p \<and> isUpper q)" by simp
      with bd nodigit have "\<not> isAlnum p \<or> \<not> isAlnum q"
        by (auto simp: isBoundary_def p_def q_def)
      then show ?thesis
        using not_alnum_blank [of p] not_alnum_blank [of q]
        by (auto simp: lU hV \<open>last A = p\<close> \<open>hd B = q\<close>)
    qed
    then show ?thesis unfolding eq by (intro wordsOf_append) simp
  qed
  show ?thesis
    by (simp add: tokens_def w words) (simp add: U_def V_def A_def B_def)
qed

lemma toLowerCase_lowerOrDigit: "list_all lowerOrDigit w \<Longrightarrow> toLowerCase w = w"
  by (induction w) (simp_all add: toLowerCase_def lowerOrDigit_toLowerChar)

lemma blankNonWord_kept_id: "\<forall>c\<in>set w. isKept c \<Longrightarrow> blankNonWord w = w"
  by (induction w) (simp_all add: blankNonWord_def)

lemma tokens_digits:
  assumes "d \<noteq> []" "\<forall>c\<in>set d. isDigit c"
  shows "tokens d = [d]"
proof -
  let ?z = "CHR '' '' # d @ '' ''"
  have nu: "\<forall>c\<in>set ?z. \<not> isUpper c"
    using assms by (auto simp: isUpper_def isDigit_def)
  have kp: "\<forall>c\<in>set ?z. isKept c" using assms by (auto simp: isKept_def)
  have sl: "spaceless d" using assms by (auto simp: spaceless_def isSpace_def isDigit_def)
  have "wordsOf (d @ '' '') = wordsOf d" using wordsOf_snoc_space [of "CHR '' ''" d] by simp
  also have "\<dots> = [d]" using wordsOf_spaceless_Cons [of d "[]"] assms sl by simp
  finally have wz: "wordsOf (d @ '' '') = [d]" .
  have lod: "list_all lowerOrDigit d" using assms by (simp add: list_all_iff lowerOrDigit_def)
  have "tokens d = map toLowerCase (wordsOf (blankNonWord (splitCamel ?z)))"
    using assms by (simp add: tokens_def wrapDigits_digits)
  also have "splitCamel ?z = ?z" using nu by (rule splitCamel_no_upper)
  also have "blankNonWord ?z = ?z" using kp by (rule blankNonWord_kept_id)
  finally show ?thesis by (simp add: wz toLowerCase_lowerOrDigit [OF lod])
qed

lemma tokens_lower:
  assumes "w \<noteq> []" "\<forall>c\<in>set w. isLower c"
  shows "tokens w = [w]"
proof -
  have nd: "\<forall>c\<in>set w. \<not> isDigit c" using assms by (auto simp: isLower_def isDigit_def)
  have nu: "\<forall>c\<in>set w. \<not> isUpper c" using assms by (auto simp: isLower_def isUpper_def)
  have kp: "\<forall>c\<in>set w. isKept c" using assms by (auto simp: isKept_def)
  have sl: "spaceless w" using assms by (auto simp: spaceless_def isSpace_def isLower_def)
  have lod: "list_all lowerOrDigit w" using assms by (simp add: list_all_iff lowerOrDigit_def)
  have "wordsOf w = [w]" using wordsOf_spaceless_Cons [of w "[]"] assms sl by simp
  then show ?thesis
    by (simp add: tokens_def wrapDigits_no_digit [OF nd] splitCamel_no_upper [OF nu]
        blankNonWord_kept_id [OF kp] toLowerCase_lowerOrDigit [OF lod])
qed

lemma tokens_pure: "pureToken w \<Longrightarrow> tokens w = [w]"
  using tokens_digits [of w] tokens_lower [of w] by (auto simp: pureToken_def list_all_iff)

lemma tokens_digit_run:
  assumes "d \<noteq> []" "\<forall>c\<in>set d. isDigit c"
    and "a = [] \<or> \<not> isDigit (last a)" and "b = [] \<or> \<not> isDigit (hd b)"
  shows "tokens (a @ d @ b) = tokens a @ [d] @ tokens b"
proof -
  have hd: "isDigit (hd d)" "isDigit (last d)" using assms(1,2) by simp_all
  have "tokens (a @ (d @ b)) = tokens a @ tokens (d @ b)"
    using assms(1,3) hd by (intro tokens_append) (auto simp: isBoundary_def)
  also have "tokens (d @ b) = tokens d @ tokens b"
    using assms(1,4) hd by (intro tokens_append) (auto simp: isBoundary_def)
  finally show ?thesis using tokens_digits [OF assms(1,2)] by simp
qed

section \<open>Pure tokens and the normalizer on its own output\<close>

lemma fenced_Cons:
  "fenced (c # z) \<longleftrightarrow>
     (z = [] \<or> isDigit c = isDigit (hd z) \<or> c = CHR '' '' \<or> hd z = CHR '' '') \<and> fenced z"
  by (cases z) auto

lemma fenced_digits_space:
  "\<forall>c\<in>set ds. isDigit c \<Longrightarrow> fenced (ds @ CHR '' '' # r) = fenced r"
proof (induction ds)
  case Nil
  then show ?case by (simp add: fenced_Cons)
next
  case (Cons c ds)
  then have "isDigit c = isDigit (hd (ds @ CHR '' '' # r)) \<or> hd (ds @ CHR '' '' # r) = CHR '' ''"
    by (cases ds) auto
  then show ?case using Cons by (auto simp: fenced_Cons [of c])
qed

lemma fenced_wrapDigits: "fenced (wrapDigits x)"
proof (induction x rule: wrapDigits.induct)
  case 1
  then show ?case by simp
next
  case (2 c cs)
  show ?case
  proof (cases "isDigit c")
    case True
    have ds: "\<forall>x\<in>set (c # takeWhile isDigit cs). isDigit x"
      using True by (auto dest: set_takeWhileD)
    have "fenced ((c # takeWhile isDigit cs) @ CHR '' '' # wrapDigits (dropWhile isDigit cs))"
      using fenced_digits_space [OF ds] "2.IH"(1) [OF True] by simp
    then show ?thesis using True by (simp add: fenced_Cons [of "CHR '' ''"])
  next
    case False
    have "cs = [] \<or> isDigit c = isDigit (hd (wrapDigits cs)) \<or> hd (wrapDigits cs) = CHR '' ''"
      using False by (cases "cs = []") (simp_all add: hd_wrapDigits)
    then show ?thesis using False "2.IH"(2) by (auto simp: fenced_Cons [of c])
  qed
qed

lemma fenced_splitCamel: "fenced z \<Longrightarrow> fenced (splitCamel z)"
proof (induction z rule: splitCamel.induct)
  case (3 c d cs)
  from "3.prems" have "fenced (d # cs)" by simp
  then have f: "fenced (splitCamel (d # cs))"
    using "3.IH" by (cases "isLower c \<and> isUpper d") auto
  show ?case
  proof (cases "isLower c \<and> isUpper d")
    case True
    then have e: "splitCamel (c # d # cs) = c # CHR '' '' # splitCamel (d # cs)" by simp
    show ?thesis
      unfolding e using f by (simp add: fenced_Cons [of "CHR '' ''"] del: splitCamel.simps)
  next
    case False
    then have e: "splitCamel (c # d # cs) = c # splitCamel (d # cs)" by simp
    have "isDigit c = isDigit d \<or> c = CHR '' '' \<or> d = CHR '' ''" using "3.prems" by simp
    then show ?thesis
      unfolding e using f by (auto simp: fenced_Cons [of c] simp del: splitCamel.simps)
  qed
qed simp_all

lemma fenced_blankNonWord: "fenced z \<Longrightarrow> fenced (blankNonWord z)"
proof (induction z rule: fenced.induct)
  case (3 c d cs)
  then have "fenced (blankNonWord (d # cs))" by simp
  moreover have "isDigit c \<Longrightarrow> isKept c" "isDigit d \<Longrightarrow> isKept d" by (simp_all add: isKept_def)
  moreover have "\<not> isDigit (CHR '' '')" by (simp add: isDigit_def)
  ultimately show ?case using "3.prems" by (auto simp: blankNonWord_def)
qed (simp_all add: blankNonWord_def)

lemma fenced_append: "fenced (u @ v) \<Longrightarrow> fenced u \<and> fenced v"
proof (induction u rule: fenced.induct)
  case (2 c)
  then show ?case by (simp add: fenced_Cons)
qed auto

lemma fenced_uniform:
  "fenced w \<Longrightarrow> CHR '' '' \<notin> set w \<Longrightarrow> (\<forall>x\<in>set w. isDigit x) \<or> (\<forall>x\<in>set w. \<not> isDigit x)"
  by (induction w rule: fenced.induct) auto

lemma wordsOf_sublist: "w \<in> set (wordsOf z) \<Longrightarrow> \<exists>u v. z = u @ w @ v"
proof (induction z rule: wordsOf.induct)
  case 1
  then show ?case by simp
next
  case (2 c cs)
  show ?case
  proof (cases "isSpace c")
    case True
    with 2 obtain u v where "cs = u @ w @ v" by auto
    then have "c # cs = (c # u) @ w @ v" by simp
    then show ?thesis by blast
  next
    case False
    from "2.prems" False
    consider "w = c # takeWhile isNonSpace cs" | "w \<in> set (wordsOf (dropWhile isNonSpace cs))"
      by auto
    then show ?thesis
    proof cases
      case 1
      then have "c # cs = [] @ w @ dropWhile isNonSpace cs" by simp
      then show ?thesis by blast
    next
      case 2
      then obtain u v where "dropWhile isNonSpace cs = u @ w @ v"
        using "2.IH"(2) False by auto
      then have "c # cs = (c # takeWhile isNonSpace cs @ u) @ w @ v"
        by (metis append_Cons append.assoc takeWhile_dropWhile_id)
      then show ?thesis by blast
    qed
  qed
qed

lemma tokens_pureToken: "w \<in> set (tokens x) \<Longrightarrow> pureToken w"
proof -
  assume "w \<in> set (tokens x)"
  define z where "z = blankNonWord (splitCamel (wrapDigits x))"
  from \<open>w \<in> set (tokens x)\<close> obtain v where v: "v \<in> set (wordsOf z)" and w: "w = toLowerCase v"
    by (auto simp: tokens_def z_def)
  have fz: "fenced z"
    by (simp add: z_def fenced_wrapDigits fenced_splitCamel fenced_blankNonWord)
  from wordsOf_proper [OF v] have vp: "v \<noteq> []" "spaceless v" "\<forall>c\<in>set v. isKept c"
    by (auto simp: z_def dest: blankNonWord_kept)
  from wordsOf_sublist [OF v] obtain u r where "z = u @ v @ r" by blast
  then have "fenced v" using fz fenced_append by blast
  moreover have "CHR '' '' \<notin> set v" using vp(2) by (auto simp: spaceless_def)
  ultimately consider "\<forall>c\<in>set v. isDigit c" | "\<forall>c\<in>set v. \<not> isDigit c"
    using fenced_uniform by blast
  then show ?thesis
  proof cases
    case 1
    then have "\<forall>c\<in>set v. toLowerChar c = c"
      by (auto simp: toLowerChar_def isUpper_def isDigit_def)
    then have "w = v" by (simp add: w toLowerCase_def map_idI)
    then show ?thesis using 1 vp by (simp add: pureToken_def list_all_iff)
  next
    case 2
    have "isLower (toLowerChar c)" if "c \<in> set v" for c
    proof -
      have "lowerOrDigit (toLowerChar c)" "\<not> isDigit c"
        using that vp 2 by (auto simp: spaceless_def intro: toLowerChar_kept)
      moreover have "isDigit (toLowerChar c) \<Longrightarrow> isDigit c"
        by (cases "isUpper c") (auto simp: toLowerChar_def isDigit_def isUpper_def code_def)
      ultimately show ?thesis by (auto simp: lowerOrDigit_def)
    qed
    then show ?thesis using vp by (auto simp: pureToken_def list_all_iff w toLowerCase_def)
  qed
qed

lemma joinWith_hd_last:
  "ws \<noteq> [] \<Longrightarrow> \<forall>w\<in>set ws. w \<noteq> [] \<Longrightarrow> joinWith s ws \<noteq> []"
  by (induction s ws rule: joinWith.induct) simp_all

lemma tokens_joinWith:
  assumes "s \<noteq> []" and "\<forall>c\<in>set s. \<not> isAlnum c"
  shows "\<forall>t\<in>set ts. pureToken t \<Longrightarrow> tokens (joinWith s ts) = ts"
proof (induction ts)
  case Nil
  then show ?case by simp
next
  case (Cons t ts)
  then have t: "tokens t = [t]" by (simp add: tokens_pure)
  show ?case
  proof (cases ts)
    case Nil
    then show ?thesis using t by simp
  next
    case (Cons u us)
    define J where "J = joinWith s ts"
    have IH: "tokens J = ts" using Cons.IH Cons.prems by (simp add: J_def)
    have hs: "\<not> isAlnum (hd s)" "\<not> isAlnum (last s)" using assms by simp_all
    have "tokens (t @ (s @ J)) = tokens t @ tokens (s @ J)"
      using hs assms(1) by (intro tokens_append) (simp add: isBoundary_def)
    also have "tokens (s @ J) = tokens s @ tokens J"
      using hs assms(1) by (intro tokens_append) (simp add: isBoundary_def)
    also have "tokens s = []"
      using assms(2) by (intro tokens_no_alnum) (simp add: isAlnum_def)
    finally show ?thesis using t IH by (simp add: Cons J_def)
  qed
qed

lemma concat_wordsOf: "concat (wordsOf z) = filter isNonSpace z"
proof (induction z rule: wordsOf.induct)
  case 1
  then show ?case by simp
next
  case (2 c cs)
  have "filter isNonSpace cs
          = filter isNonSpace (takeWhile isNonSpace cs @ dropWhile isNonSpace cs)" by simp
  also have "\<dots> = takeWhile isNonSpace cs @ filter isNonSpace (dropWhile isNonSpace cs)"
    unfolding filter_append by (simp add: filter_id_conv) (auto dest: set_takeWhileD)
  finally have f: "filter isNonSpace cs
      = takeWhile isNonSpace cs @ filter isNonSpace (dropWhile isNonSpace cs)" .
  have nc: "isNonSpace c \<longleftrightarrow> \<not> isSpace c" by (simp add: isNonSpace_def)
  show ?case
  proof (cases "isSpace c")
    case True
    then show ?thesis using "2.IH"(1) by (simp add: nc)
  next
    case False
    then show ?thesis using "2.IH"(2) by (simp add: nc f)
  qed
qed

lemma filter_blankNonWord: "filter isNonSpace (blankNonWord z) = filter isAlnum z"
proof (induction z)
  case Nil
  then show ?case by (simp add: blankNonWord_def)
next
  case (Cons c z)
  have "isAlnum c \<Longrightarrow> isKept c \<and> \<not> isSpace c"
    by (auto simp: isAlnum_def isLetter_def isKept_def isSpace_def isLower_def isUpper_def
        isDigit_def)
  moreover have "\<not> isAlnum c \<Longrightarrow> isKept c \<Longrightarrow> isSpace c"
    by (auto simp: isAlnum_def isLetter_def isKept_def)
  ultimately show ?case using Cons by (auto simp: blankNonWord_def isNonSpace_def)
qed

lemma not_alnum_space [simp]: "\<not> isAlnum (CHR '' '')"
  by (simp add: isAlnum_def isLetter_def isLower_def isUpper_def isDigit_def)

lemma filter_splitCamel: "filter isAlnum (splitCamel z) = filter isAlnum z"
  by (induction z rule: splitCamel.induct) simp_all

lemma filter_wrapDigits: "filter isAlnum (wrapDigits z) = filter isAlnum z"
proof (induction z rule: wrapDigits.induct)
  case 1
  then show ?case by simp
next
  case (2 c cs)
  show ?case
  proof (cases "isDigit c")
    case True
    have "filter isAlnum cs
            = filter isAlnum (takeWhile isDigit cs) @ filter isAlnum (dropWhile isDigit cs)"
      by (metis filter_append takeWhile_dropWhile_id)
    then show ?thesis using True "2.IH"(1) by simp
  next
    case False
    then show ?thesis using "2.IH"(2) by simp
  qed
qed

lemma joinWith_empty: "joinWith [] ws = concat ws"
  by (induction "[] :: string" ws rule: joinWith.induct) simp_all

lemma concat_toLowerCase: "concat (map toLowerCase ws) = toLowerCase (concat ws)"
  by (induction ws) (simp_all add: toLowerCase_def)

lemma toSentence_empty_separator: "toSentence x [] = toLowerCase (filter isAlnum x)"
proof -
  have "toSentence x [] = concat (tokens x)" by (simp add: toSentence_tokens joinWith_empty)
  also have "\<dots> = toLowerCase (concat (wordsOf (blankNonWord (splitCamel (wrapDigits x)))))"
    by (simp add: tokens_def concat_toLowerCase)
  finally show ?thesis
    by (simp add: concat_wordsOf filter_blankNonWord filter_splitCamel filter_wrapDigits)
qed

lemma toLowerChar_alnum: "isAlnum c \<Longrightarrow> lowerOrDigit (toLowerChar c)"
  by (auto simp: isAlnum_def isLetter_def lowerOrDigit_def toLowerChar_def isLower_def isUpper_def
      isDigit_def code_def)

lemma lowerOrDigit_alnum: "lowerOrDigit c \<Longrightarrow> isAlnum c"
  by (auto simp: isAlnum_def isLetter_def lowerOrDigit_def)

lemma toSentence_idem_empty: "toSentence (toSentence x []) [] = toSentence x []"
proof -
  define w where "w = toLowerCase (filter isAlnum x)"
  have lod: "list_all lowerOrDigit w"
    by (auto simp: w_def toLowerCase_def list_all_iff intro: toLowerChar_alnum)
  then have "filter isAlnum w = w"
    by (auto simp: list_all_iff filter_id_conv intro: lowerOrDigit_alnum)
  then show ?thesis
    using toLowerCase_lowerOrDigit [OF lod] by (simp add: toSentence_empty_separator w_def [symmetric])
qed

lemma tokens_trim:
  assumes "\<forall>c\<in>set p. \<not> isLetter c \<and> \<not> isDigit c"
    and "\<forall>c\<in>set q. \<not> isLetter c \<and> \<not> isDigit c"
  shows "tokens (p @ x @ q) = tokens x"
proof -
  have "p = [] \<or> \<not> isAlnum (last p)" "q = [] \<or> \<not> isAlnum (hd q)"
    using assms by (auto simp: isAlnum_def)
  then have "tokens (p @ (x @ q)) = tokens p @ tokens (x @ q)"
    and "tokens (x @ q) = tokens x @ tokens q"
    by (auto intro!: tokens_append simp: isBoundary_def)
  then show ?thesis using assms by (simp add: tokens_no_alnum)
qed

lemma toSentence_trim:
  assumes "\<forall>c\<in>set p. \<not> isLetter c \<and> \<not> isDigit c"
    and "\<forall>c\<in>set q. \<not> isLetter c \<and> \<not> isDigit c"
  shows "toSentence (p @ x @ q) s = toSentence x s"
  using tokens_trim [OF assms] by (simp add: toSentence_def spaced_tokens)

section \<open>The normalizer\<close>

text \<open>
  The separator substitution law on the case types that pass a separator: the result is the
  default result with every space replaced by the separator (and upper-cased for
  \<open>ConstantCase\<close>).
\<close>
lemma toCase_separator_law:
  "toCase x DotCase = withSeparator ''.'' (toSentence x '' '')"
  "toCase x KebabCase = withSeparator ''-'' (toSentence x '' '')"
  "toCase x LowerCase = withSeparator [] (toSentence x '' '')"
  "toCase x PathCase = withSeparator ''/'' (toSentence x '' '')"
  "toCase x SnakeCase = withSeparator ''_'' (toSentence x '' '')"
  "toCase x ConstantCase = toUpperCase (withSeparator ''_'' (toSentence x '' ''))"
  by (simp_all add: toConstantCase_def separator_law [symmetric])

text \<open>
  C2: for every separator \<open>s\<close>, \<open>toSentence x s\<close> is \<open>toSentence x\<close> with every boundary space
  replaced by \<open>s\<close>. The code passes the separator to \<^verbatim>\<open>replace\<close> as a replacement template,
  so it holds for a separator without a dollar sign (lemma \<open>separator_law\<close>), and fails
  for the separator \<^verbatim>\<open>$&\<close>: on the input \<open>a b\<close> the code returns \<open>a b\<close>, where the space
  replaced by the separator gives \<^verbatim>\<open>a$&b\<close>.
\<close>
theorem separator_template_expanded:
  "toSentence ''a b'' ''$&'' = ''a b'' \<and>
   withSeparator ''$&'' (toSentence ''a b'' '' '') = ''a$&b''"
  by code_simp

text \<open>
  C3: \<open>toSentence\<close> is idempotent for a separator held constant. As stated, for every
  separator, it fails: the separator is put in after the tokens are cut and lower-cased, so a
  separator with a digit (or a letter) is cut into tokens by the second call.
\<close>
theorem toSentence_not_idempotent:
  "toSentence (toSentence ''a b'' ''1'') ''1'' \<noteq> toSentence ''a b'' ''1''"
  by code_simp

text \<open>
  C3, amended: for every separator without an ASCII letter, a digit or a dollar sign (the
  default space, the empty separator and the separators of the case types are such),
  \<open>toSentence\<close> applied to its own output returns it unchanged.
\<close>
theorem toSentence_idempotent:
  assumes "\<forall>c\<in>set s. \<not> isLetter c \<and> \<not> isDigit c \<and> c \<noteq> CHR ''$''"
  shows "toSentence (toSentence x s) s = toSentence x s"
proof (cases "s = []")
  case True
  then show ?thesis by (simp add: toSentence_idem_empty)
next
  case False
  have d: "CHR ''$'' \<notin> set s" using assms by auto
  have na: "\<forall>c\<in>set s. \<not> isAlnum c" using assms by (simp add: isAlnum_def)
  have "tokens (joinWith s (tokens x)) = tokens x"
    using tokens_joinWith [OF False na] tokens_pureToken by blast
  then show ?thesis by (simp add: toSentence_tokens [OF d])
qed

theorem toSentence_idempotent_witness:
  "toSentence ''livesDown_by-the.River'' ''-'' = ''lives-down-by-the-river'' \<and>
   toSentence (toSentence ''livesDown_by-the.River'' ''-'') ''-'' = ''lives-down-by-the-river''"
proof -
  have h: "\<forall>c\<in>set ''-''. \<not> isLetter c \<and> \<not> isDigit c \<and> c \<noteq> CHR ''$''"
    by (simp add: isLetter_def isLower_def isUpper_def isDigit_def code_def)
  have ev: "toSentence ''livesDown_by-the.River'' ''-'' = ''lives-down-by-the-river''"
    by code_simp
  show ?thesis
    using toSentence_idempotent [OF h, of "''livesDown_by-the.River''"] by (simp add: ev)
qed

text \<open>
  C4: a maximal run of digits of the input is one token of the output, whole: the tokens of
  the output are the tokens of what stands before the run, the run, and the tokens of what
  stands behind it. So \<open>abc123def\<close> gives \<open>abc 123 def\<close>.
\<close>
theorem digit_run_one_token:
  assumes "d \<noteq> []" and "\<forall>c\<in>set d. isDigit c"
    and "a = [] \<or> \<not> isDigit (last a)" and "b = [] \<or> \<not> isDigit (hd b)"
  shows "wordsOf (toSentence (a @ d @ b) '' '')
           = wordsOf (toSentence a '' '') @ [d] @ wordsOf (toSentence b '' '') \<and>
         toSentence (a @ d @ b) '' ''
           = joinWith '' '' (wordsOf (toSentence a '' '') @ [d] @ wordsOf (toSentence b '' '')) \<and>
         toSentence ''abc123def'' '' '' = ''abc 123 def''"
proof -
  have ev: "toSentence ''abc123def'' '' '' = ''abc 123 def''" by code_simp
  have "tokens (a @ d @ b) = tokens a @ [d] @ tokens b"
    using assms by (rule tokens_digit_run)
  then show ?thesis
    by (simp add: wordsOf_toSentence ev) (simp add: toSentence_tokens)
qed

theorem digit_run_one_token_witness:
  "wordsOf (toSentence (''abc'' @ ''123'' @ ''def'') '' '') = [''abc'', ''123'', ''def''] \<and>
   toSentence (''abc'' @ ''123'' @ ''def'') '' '' = ''abc 123 def''"
proof -
  have h: "''123'' \<noteq> []" "\<forall>c\<in>set ''123''. isDigit c"
    "''abc'' = [] \<or> \<not> isDigit (last ''abc'')" "''def'' = [] \<or> \<not> isDigit (hd ''def'')"
    by (simp_all add: isDigit_def code_def)
  have ev: "wordsOf (toSentence ''abc'' '' '') = [''abc'']"
    "wordsOf (toSentence ''def'' '' '') = [''def'']"
    by code_simp+
  show ?thesis
    using digit_run_one_token [OF h] by (simp add: ev isNonSpace_def isSpace_def code_def)
qed

text \<open>
  C5: \<open>toSentence\<close> of the empty string is the empty string, an input without an ASCII
  letter or digit gives the empty string, and leading and trailing digits or punctuation are
  trimmed away. As stated it fails for the digits: step 1 makes a run of digits a token, at
  the ends of the input as anywhere else, so \<open>12ab34\<close> gives \<open>12 ab 34\<close> and not the
  output of \<open>ab\<close>.
\<close>
theorem toSentence_keeps_edge_digits:
  "toSentence ''12ab34'' '' '' = ''12 ab 34'' \<and>
   toSentence ''12ab34'' '' '' \<noteq> toSentence ''ab'' '' ''"
  by code_simp

text \<open>
  C5, amended: \<open>toSentence\<close> of the empty string is the empty string for every separator; an
  input without an ASCII letter or digit gives the empty string for every separator;
  punctuation (code units that are neither letters nor digits) at the two ends of an input
  is trimmed away, for every separator; a run of digits at the start or at the end of an
  input is kept, as the first or the last token; and no output with the default separator
  starts or ends with a space, so no empty token is left at the ends.
\<close>
theorem toSentence_empty_output:
  "toSentence [] s = [] \<and>
   ((\<forall>c\<in>set x. \<not> isLetter c \<and> \<not> isDigit c) \<longrightarrow> toSentence x s = []) \<and>
   ((\<forall>c\<in>set p. \<not> isLetter c \<and> \<not> isDigit c) \<and> (\<forall>c\<in>set q. \<not> isLetter c \<and> \<not> isDigit c)
      \<longrightarrow> toSentence (p @ y @ q) s = toSentence y s) \<and>
   (d \<noteq> [] \<and> (\<forall>c\<in>set d. isDigit c) \<and> (y = [] \<or> \<not> isDigit (hd y))
      \<longrightarrow> wordsOf (toSentence (d @ y) '' '') = d # wordsOf (toSentence y '' '')) \<and>
   (d \<noteq> [] \<and> (\<forall>c\<in>set d. isDigit c) \<and> (y = [] \<or> \<not> isDigit (last y))
      \<longrightarrow> wordsOf (toSentence (y @ d) '' '') = wordsOf (toSentence y '' '') @ [d]) \<and>
   (toSentence y '' '' \<noteq> [] \<longrightarrow>
      hd (toSentence y '' '') \<noteq> CHR '' '' \<and> last (toSentence y '' '') \<noteq> CHR '' '')"
proof -
  have lead: "wordsOf (toSentence (d @ y) '' '') = d # wordsOf (toSentence y '' '')"
    if "d \<noteq> []" "\<forall>c\<in>set d. isDigit c" "y = [] \<or> \<not> isDigit (hd y)"
    using tokens_digit_run [of d "[]" y] that by (simp add: wordsOf_toSentence)
  have trail: "wordsOf (toSentence (y @ d) '' '') = wordsOf (toSentence y '' '') @ [d]"
    if "d \<noteq> []" "\<forall>c\<in>set d. isDigit c" "y = [] \<or> \<not> isDigit (last y)"
    using tokens_digit_run [of d y "[]"] that by (simp add: wordsOf_toSentence)
  have none: "toSentence x s = []" if "\<forall>c\<in>set x. \<not> isLetter c \<and> \<not> isDigit c"
    using that by (rule toSentence_no_alnum)
  have trim: "toSentence (p @ y @ q) s = toSentence y s"
    if "\<forall>c\<in>set p. \<not> isLetter c \<and> \<not> isDigit c" "\<forall>c\<in>set q. \<not> isLetter c \<and> \<not> isDigit c"
    using that by (rule toSentence_trim)
  have edge: "hd (toSentence y '' '') \<noteq> CHR '' '' \<and> last (toSentence y '' '') \<noteq> CHR '' ''"
    if "toSentence y '' '' \<noteq> []"
    using that by (rule toSentence_no_edge_space)
  have nil: "toSentence [] s = []" by simp
  show ?thesis
    using nil none trim lead trail edge by blast
qed

theorem toSentence_empty_output_witness:
  "toSentence [] ''/'' = [] \<and> toSentence ''_-. !'' ''/'' = [] \<and>
   toSentence (''_-'' @ ''ab'' @ ''. !'') ''/'' = toSentence ''ab'' ''/'' \<and>
   wordsOf (toSentence (''12'' @ ''ab'') '' '') = [''12'', ''ab''] \<and>
   wordsOf (toSentence (''ab'' @ ''12'') '' '') = [''ab'', ''12''] \<and>
   toSentence ''ab'' '' '' = ''ab'' \<and>
   hd (toSentence ''ab'' '' '') = CHR ''a'' \<and> last (toSentence ''ab'' '' '') = CHR ''b''"
proof -
  have h: "\<forall>c\<in>set ''_-. !''. \<not> isLetter c \<and> \<not> isDigit c"
    "\<forall>c\<in>set ''_-''. \<not> isLetter c \<and> \<not> isDigit c"
    "\<forall>c\<in>set ''. !''. \<not> isLetter c \<and> \<not> isDigit c"
    by (simp_all add: isLetter_def isLower_def isUpper_def isDigit_def code_def)
  have g: "''12'' \<noteq> []" "\<forall>c\<in>set ''12''. isDigit c"
    "''ab'' = [] \<or> \<not> isDigit (hd ''ab'')" "''ab'' = [] \<or> \<not> isDigit (last ''ab'')"
    by (simp_all add: isDigit_def code_def)
  have ev: "toSentence ''ab'' '' '' = ''ab''" by code_simp
  have evw: "wordsOf (toSentence ''ab'' '' '') = [''ab'']" by code_simp
  note t = toSentence_empty_output [of "''/''" "''_-. !''" "''_-''" "''. !''" "''ab''" "''12''"]
  have w1: "toSentence [] ''/'' = []" using t by blast
  have w2: "toSentence ''_-. !'' ''/'' = []" using t h(1) by blast
  have w3: "toSentence (''_-'' @ ''ab'' @ ''. !'') ''/'' = toSentence ''ab'' ''/''"
    using t h(2,3) by blast
  have w4: "wordsOf (toSentence (''12'' @ ''ab'') '' '') = ''12'' # wordsOf (toSentence ''ab'' '' '')"
    using t g(1,2,3) by blast
  have w5: "wordsOf (toSentence (''ab'' @ ''12'') '' '') = wordsOf (toSentence ''ab'' '' '') @ [''12'']"
    using t g(1,2,4) by blast
  have w4': "wordsOf (toSentence (''12'' @ ''ab'') '' '') = [''12'', ''ab'']"
    unfolding w4 evw by simp
  have w5': "wordsOf (toSentence (''ab'' @ ''12'') '' '') = [''ab'', ''12'']"
    unfolding w5 evw by simp
  have e: "hd (toSentence ''ab'' '' '') = CHR ''a''" "last (toSentence ''ab'' '' '') = CHR ''b''"
    unfolding ev by simp_all
  show ?thesis using w1 w2 w3 w4' w5' ev e by (intro conjI)
qed

text \<open>
  C6: the output of \<open>toSentence\<close> with the default separator is made of lower-case letters,
  digits and spaces only: it contains no underscore, no hyphen, no dot and no upper-case
  letter.
\<close>
theorem toSentence_charset:
  "(\<forall>c\<in>set (toSentence x '' ''). isLower c \<or> isDigit c \<or> c = CHR '' '') \<and>
   CHR ''_'' \<notin> set (toSentence x '' '') \<and>
   CHR ''-'' \<notin> set (toSentence x '' '') \<and>
   CHR ''.'' \<notin> set (toSentence x '' '') \<and>
   \<not> (\<exists>c\<in>set (toSentence x '' ''). isUpper c)"
proof -
  have *: "lowerOrDigit c \<or> c = CHR '' ''" if "c \<in> set (toSentence x '' '')" for c
    using that toSentenceDefault_chars by (simp add: toSentenceDefault_def)
  have a: "\<not> lowerOrDigit (CHR ''_'')" "\<not> lowerOrDigit (CHR ''-'')"
    "\<not> lowerOrDigit (CHR ''.'')"
    by (simp_all add: lowerOrDigit_def isLower_def isDigit_def code_def)
  have b: "\<not> isUpper (CHR '' '')" by (simp add: isUpper_def)
  have "\<forall>c\<in>set (toSentence x '' ''). isLower c \<or> isDigit c \<or> c = CHR '' ''"
    using * by (auto simp: lowerOrDigit_def)
  moreover have "CHR ''_'' \<notin> set (toSentence x '' '')" using * [of "CHR ''_''"] a by auto
  moreover have "CHR ''-'' \<notin> set (toSentence x '' '')" using * [of "CHR ''-''"] a by auto
  moreover have "CHR ''.'' \<notin> set (toSentence x '' '')" using * [of "CHR ''.''"] a by auto
  moreover have "\<not> (\<exists>c\<in>set (toSentence x '' ''). isUpper c)"
    using * b lowerOrDigit_not_upper by blast
  ultimately show ?thesis by blast
qed

theorem toSentence_charset_witness:
  "toSentence ''livesDown_by-the.River'' '' '' = ''lives down by the river'' \<and>
   CHR ''_'' \<notin> set (toSentence ''livesDown_by-the.River'' '' '') \<and>
   CHR ''-'' \<notin> set (toSentence ''livesDown_by-the.River'' '' '') \<and>
   CHR ''.'' \<notin> set (toSentence ''livesDown_by-the.River'' '' '') \<and>
   list_all (\<lambda>c. \<not> isUpper c) (toSentence ''livesDown_by-the.River'' '' '')"
proof -
  have ev: "toSentence ''livesDown_by-the.River'' '' '' = ''lives down by the river''"
    by code_simp
  show ?thesis
    using toSentence_charset [of "''livesDown_by-the.River''"]
    by (simp add: ev list_all_iff)
qed

section \<open>The dispatcher\<close>

text \<open>
  C1: for the input \<open>livesDown_by-the.River\<close>, \<open>toCase\<close> with \<open>CamelCase\<close> returns
  \<open>livesDownByTheRiver\<close> and \<open>toCase\<close> with \<open>ConstantCase\<close> returns
  \<open>LIVES_DOWN_BY_THE_RIVER\<close>.
\<close>
theorem toCase_livesDown:
  "toCase ''livesDown_by-the.River'' CamelCase = ''livesDownByTheRiver'' \<and>
   toCase ''livesDown_by-the.River'' ConstantCase = ''LIVES_DOWN_BY_THE_RIVER''"
  by code_simp

text \<open>
  C7: \<open>toCase\<close> with the case type \<open>None\<close> returns its input unchanged, and so it does for
  every case-type value outside the enumeration (the \<^verbatim>\<open>default\<close> branch): no error is
  raised.
\<close>
theorem toCase_None_identity:
  "toCase x NoneCase = x \<and> toCase x (Unlisted v) = x"
  by simp

text \<open>
  C10: for every case type \<open>t\<close>, \<open>toCase\<close> of the empty string is the empty string: every
  renderer returns on it, also \<open>toSentenceCase\<close> and \<open>toTitleCase\<close>, whose
  \<^verbatim>\<open>charAt(0)\<close> and \<^verbatim>\<open>substr(1)\<close> give the empty string there.
\<close>
theorem toCase_empty: "toCase [] t = []"
  by (cases t)
     (simp_all add: toCamelCase_def toConstantCase_def toPascalCase_def toSentenceCase_def
        toTitleCase_def toSentenceDefault_def upperFirstLetter_def toUpperCase_def
        toLowerCase_def charAt0_def substr1_def)

text \<open>
  C8: \<open>toCase\<close> with \<open>SentenceCase\<close> is the input normalized with the space separator, with
  its first code unit upper-cased and the remainder lower-cased; the remainder is lower-case
  already, so it is left as it is.
\<close>
theorem toCase_SentenceCase:
  "toCase x SentenceCase = capitalizeSentence (toSentence x '' '') \<and>
   toCase x SentenceCase = capitalize (toSentence x '' '')"
  using toSentenceCase_spec [of x] toSentenceCase_rest [of x] by simp

theorem toCase_SentenceCase_witness:
  "toCase ''livesDown_by-the.River'' SentenceCase = ''Lives down by the river'' \<and>
   capitalizeSentence (toSentence ''livesDown_by-the.River'' '' '') = ''Lives down by the river''"
proof -
  have ev: "capitalizeSentence (toSentence ''livesDown_by-the.River'' '' '')
              = ''Lives down by the river''"
    by code_simp
  show ?thesis using toCase_SentenceCase [of "''livesDown_by-the.River''"] by (simp add: ev)
qed

text \<open>
  C9: \<open>toCase\<close> with \<open>CamelCase\<close> is the input normalized with the space separator, in which
  every space before a word character is removed and that character upper-cased. Every
  space of the normalized input stands before a word character, so the result is the first
  token, as it is, followed by the later tokens capitalized; and every token of the
  normalized input is made of lower-case letters and digits, so the first token stays
  lower-case.
\<close>
theorem toCase_CamelCase:
  "toCase x CamelCase = upperAfterSpace False (toSentence x '' '') \<and>
   toCase x CamelCase = camelTokens (wordsOf (toSentence x '' '')) \<and>
   (\<forall>w\<in>set (wordsOf (toSentence x '' '')). w \<noteq> [] \<and> (\<forall>c\<in>set w. isLower c \<or> isDigit c))"
proof -
  have "w \<noteq> [] \<and> (\<forall>c\<in>set w. isLower c \<or> isDigit c)"
    if "w \<in> set (wordsOf (toSentence x '' ''))" for w
    using that tokens_proper [of w x]
    by (simp add: wordsOf_toSentence properToken_def list_all_iff lowerOrDigit_def)
  then have c: "\<forall>w\<in>set (wordsOf (toSentence x '' '')). w \<noteq> [] \<and> (\<forall>c\<in>set w. isLower c \<or> isDigit c)"
    by blast
  have a: "toCase x CamelCase = upperAfterSpace False (toSentence x '' '')"
    using joinCamel_upperAfterSpace [of "toSentence x '' ''"]
    by (simp add: toCamelCase_def toSentenceDefault_def)
  have b: "toCase x CamelCase = camelTokens (wordsOf (toSentence x '' ''))"
    by (rule toCamelCase_tokens)
  show ?thesis using a b c by (intro conjI)
qed


theorem toCase_CamelCase_witness:
  "toCase ''LivesDOWN_by-the.River'' CamelCase = ''livesDownByTheRiver'' \<and>
   upperAfterSpace False (toSentence ''LivesDOWN_by-the.River'' '' '') = ''livesDownByTheRiver'' \<and>
   camelTokens (wordsOf (toSentence ''LivesDOWN_by-the.River'' '' '')) = ''livesDownByTheRiver'' \<and>
   wordsOf (toSentence ''LivesDOWN_by-the.River'' '' '')
     = [''lives'', ''down'', ''by'', ''the'', ''river''] \<and>
   list_all (\<lambda>c. isLower c \<or> isDigit c) (hd (wordsOf (toSentence ''LivesDOWN_by-the.River'' '' '')))"
proof -
  have ev1: "upperAfterSpace False (toSentence ''LivesDOWN_by-the.River'' '' '')
              = ''livesDownByTheRiver''"
    by code_simp
  have ev2: "wordsOf (toSentence ''LivesDOWN_by-the.River'' '' '')
       = [''lives'', ''down'', ''by'', ''the'', ''river'']"
    by code_simp
  note t = toCase_CamelCase [of "''LivesDOWN_by-the.River''"]
  from t have a: "toCase ''LivesDOWN_by-the.River'' CamelCase
      = upperAfterSpace False (toSentence ''LivesDOWN_by-the.River'' '' '')" by (rule conjunct1)
  from t have b: "toCase ''LivesDOWN_by-the.River'' CamelCase
      = camelTokens (wordsOf (toSentence ''LivesDOWN_by-the.River'' '' ''))" by blast
  from t have c: "\<forall>w\<in>set (wordsOf (toSentence ''LivesDOWN_by-the.River'' '' '')).
      w \<noteq> [] \<and> (\<forall>c\<in>set w. isLower c \<or> isDigit c)" by blast
  have hd: "hd (wordsOf (toSentence ''LivesDOWN_by-the.River'' '' ''))
      \<in> set (wordsOf (toSentence ''LivesDOWN_by-the.River'' '' ''))"
    unfolding ev2 by simp
  have r1: "toCase ''LivesDOWN_by-the.River'' CamelCase = ''livesDownByTheRiver''"
    unfolding a by (rule ev1)
  have r3: "camelTokens (wordsOf (toSentence ''LivesDOWN_by-the.River'' '' ''))
      = ''livesDownByTheRiver''"
    unfolding b [symmetric] by (rule r1)
  have r5: "list_all (\<lambda>c. isLower c \<or> isDigit c)
      (hd (wordsOf (toSentence ''LivesDOWN_by-the.River'' '' '')))"
    using c hd unfolding list_all_iff by blast
  show ?thesis using r1 ev1 r3 ev2 r5 by (intro conjI)
qed

end
